theory Spec2Isabelle
  imports Main "HOL-Library.Char_ord" "HOL-Library.List_Lexorder"
begin

section \<open>Python values used by the resolver\<close>

text \<open>
  A Python \<open>str\<close> is modelled as a \<^typ>\<open>string\<close>, one \<^typ>\<open>char\<close> per code point
  below 256. Python integers are unbounded, hence \<^typ>\<open>int\<close>. An exception is a value:
  every function that can raise returns \<open>exn + 'a\<close>, with \<open>Inl\<close> carrying the exception.
\<close>

datatype exn =
    ResolutionError string
  | TypeError string
  | RecursionError string

fun str_exn :: "exn \<Rightarrow> string" where
  "str_exn (ResolutionError m) = m"
| "str_exn (TypeError m) = m"
| "str_exn (RecursionError m) = m"

subsection \<open>\<open>str.strip\<close>, \<open>str.split\<close>, \<open>str.join\<close>, \<open>str.startswith\<close>\<close>

definition py_isspace :: "char \<Rightarrow> bool" where
  "py_isspace c \<longleftrightarrow>
     (of_char c :: nat) \<in> {9, 10, 11, 12, 13, 28, 29, 30, 31, 32, 133, 160}"

definition strip :: "string \<Rightarrow> string" where
  "strip s = rev (dropWhile py_isspace (rev (dropWhile py_isspace s)))"

definition startswith :: "string \<Rightarrow> string \<Rightarrow> bool" where
  "startswith s p \<longleftrightarrow> take (length p) s = p"

primrec split :: "char \<Rightarrow> string \<Rightarrow> string list" where
  "split sep [] = [[]]"
| "split sep (c # cs) =
     (if c = sep then [] # split sep cs
      else (case split sep cs of [] \<Rightarrow> [[c]] | w # ws \<Rightarrow> (c # w) # ws))"

fun join :: "string \<Rightarrow> string list \<Rightarrow> string" where
  "join sep [] = []"
| "join sep [w] = w"
| "join sep (w # v # ws) = w @ sep @ join sep (v # ws)"

subsection \<open>\<open>int(s)\<close> and \<open>str(n)\<close>\<close>

definition is_digit :: "char \<Rightarrow> bool" where
  "is_digit c \<longleftrightarrow> 48 \<le> (of_char c :: nat) \<and> (of_char c :: nat) \<le> 57"

definition digit_val :: "char \<Rightarrow> nat" where
  "digit_val c = of_char c - 48"

definition digit_char :: "nat \<Rightarrow> char" where
  "digit_char d = char_of (48 + d)"

text \<open>
  The decimal literal accepted by \<open>int\<close>: digits, with single underscores allowed between
  two digits. The flag records whether the previous character was a digit.
\<close>

fun parse_digits :: "bool \<Rightarrow> nat \<Rightarrow> string \<Rightarrow> nat option" where
  "parse_digits prev acc [] = (if prev then Some acc else None)"
| "parse_digits prev acc (c # cs) =
     (if is_digit c then parse_digits True (10 * acc + digit_val c) cs
      else if c = CHR ''_'' \<and> prev then parse_digits False acc cs
      else None)"

text \<open>\<open>int(s)\<close>: \<open>None\<close> stands for \<open>ValueError\<close>, which \<open>Version.__init__\<close> catches.\<close>

definition py_int :: "string \<Rightarrow> int option" where
  "py_int s =
     (case strip s of
        [] \<Rightarrow> None
      | c # cs \<Rightarrow>
          if c = CHR ''-'' then map_option (\<lambda>n. - int n) (parse_digits False 0 cs)
          else if c = CHR ''+'' then map_option int (parse_digits False 0 cs)
          else map_option int (parse_digits False 0 (c # cs)))"

fun str_nat :: "nat \<Rightarrow> string" where
  "str_nat n = (if n < 10 then [digit_char n] else str_nat (n div 10) @ [digit_char (n mod 10)])"

declare str_nat.simps [simp del]

definition str_int :: "int \<Rightarrow> string" where
  "str_int i = (if i < 0 then CHR ''-'' # str_nat (nat (- i)) else str_nat (nat i))"

section \<open>\<open>package.py\<close>: \<open>Version\<close>\<close>

text \<open>
  \<open>Version.parts\<close> is a list whose elements are \<open>int\<close> (the component parsed) or \<open>str\<close>
  (the component kept as it is when \<open>int\<close> raises \<open>ValueError\<close>).
\<close>

datatype part = PInt int | PStr string

definition Version :: "string \<Rightarrow> part list" where
  "Version version_str =
     map (\<lambda>p. case py_int p of Some i \<Rightarrow> PInt i | None \<Rightarrow> PStr p) (split (CHR ''.'') version_str)"

fun str_part :: "part \<Rightarrow> string" where
  "str_part (PInt i) = str_int i"
| "str_part (PStr s) = s"

definition str_Version :: "part list \<Rightarrow> string" where
  "str_Version parts = join ''.'' (map str_part parts)"

text \<open>
  Comparison of two components with \<open><\<close> and \<open><=\<close>. Python orders \<open>int\<close> with \<open>int\<close> and
  \<open>str\<close> with \<open>str\<close> (by code point); a mixed pair raises \<open>TypeError\<close>.
\<close>

fun type_name :: "part \<Rightarrow> string" where
  "type_name (PInt _) = ''int''"
| "type_name (PStr _) = ''str''"

definition not_supported :: "string \<Rightarrow> part \<Rightarrow> part \<Rightarrow> exn" where
  "not_supported op x y =
     TypeError ([CHR 0x27] @ op @ [CHR 0x27] @ '' not supported between instances of ''
                @ [CHR 0x27] @ type_name x @ [CHR 0x27] @ '' and ''
                @ [CHR 0x27] @ type_name y @ [CHR 0x27])"

fun part_lt :: "part \<Rightarrow> part \<Rightarrow> exn + bool" where
  "part_lt (PInt a) (PInt b) = Inr (a < b)"
| "part_lt (PStr a) (PStr b) = Inr (a < b)"
| "part_lt x y = Inl (not_supported ''<'' x y)"

fun part_le :: "part \<Rightarrow> part \<Rightarrow> exn + bool" where
  "part_le (PInt a) (PInt b) = Inr (a \<le> b)"
| "part_le (PStr a) (PStr b) = Inr (a \<le> b)"
| "part_le x y = Inl (not_supported ''<='' x y)"

text \<open>
  \<open>list.__lt__\<close> and \<open>list.__le__\<close>: skip the common prefix of equal elements, then compare
  the first pair that differs, or the lengths when one list is exhausted.
\<close>

fun parts_lt :: "part list \<Rightarrow> part list \<Rightarrow> exn + bool" where
  "parts_lt [] [] = Inr False"
| "parts_lt [] (y # ys) = Inr True"
| "parts_lt (x # xs) [] = Inr False"
| "parts_lt (x # xs) (y # ys) = (if x = y then parts_lt xs ys else part_lt x y)"

fun parts_le :: "part list \<Rightarrow> part list \<Rightarrow> exn + bool" where
  "parts_le [] ys = Inr True"
| "parts_le (x # xs) [] = Inr False"
| "parts_le (x # xs) (y # ys) = (if x = y then parts_le xs ys else part_le x y)"

section \<open>\<open>package.py\<close>: \<open>Package\<close>\<close>

datatype PackageStatus = INSTALLED | AVAILABLE | NOT_FOUND

record Package =
  name :: string
  version :: "part list"
  dependencies :: "(string \<times> string) list"
  description :: string
  status :: PackageStatus

text \<open>The dataclass constructor with its two defaulted fields.\<close>

definition mk_Package :: "string \<Rightarrow> part list \<Rightarrow> (string \<times> string) list \<Rightarrow> Package" where
  "mk_Package n v deps =
     \<lparr>name = n, version = v, dependencies = deps, description = [], status = AVAILABLE\<rparr>"

text \<open>\<open>Package.__eq__\<close>: name and version only.\<close>

definition pkg_eq :: "Package \<Rightarrow> Package \<Rightarrow> bool" where
  "pkg_eq self other \<longleftrightarrow> name self = name other \<and> version self = version other"

text \<open>
  The upper bound of a caret range: the loop over \<open>enumerate(upper_parts)\<close>. \<open>pre\<close> holds the
  components already passed (all equal to \<open>0\<close>). A \<open>str\<close> component is different from \<open>0\<close>,
  and \<open>+= 1\<close> on it raises \<open>TypeError\<close>.
\<close>

fun caret_upper :: "part list \<Rightarrow> part list \<Rightarrow> exn + part list" where
  "caret_upper pre [] = Inr pre"
| "caret_upper pre (p # rest) =
     (if p \<noteq> PInt 0 then
        (case p of
           PInt n \<Rightarrow> Inr (pre @ [PInt (n + 1)] @ replicate (length rest) (PInt 0))
         | PStr s \<Rightarrow> Inl (TypeError (''can only concatenate str (not '' @ [CHR 0x22] @ ''int''
                                  @ [CHR 0x22] @ '') to str'')))
      else caret_upper (pre @ [p]) rest)"

definition satisfies_constraint :: "Package \<Rightarrow> string \<Rightarrow> exn + bool" where
  "satisfies_constraint self constraint =
     (if constraint = ''*'' \<or> constraint = [] then Inr True
      else if startswith constraint ''=='' then
        Inr (str_Version (version self) = strip (drop 2 constraint))
      else if startswith constraint ''>='' then
        parts_le (Version (strip (drop 2 constraint))) (version self)
      else if startswith constraint ''<='' then
        parts_le (version self) (Version (strip (drop 2 constraint)))
      else if startswith constraint ''>'' then
        parts_lt (Version (strip (drop 1 constraint))) (version self)
      else if startswith constraint ''<'' then
        parts_lt (version self) (Version (strip (drop 1 constraint)))
      else if startswith constraint ''^'' then
        (let base_version = Version (strip (drop 1 constraint)) in
         case parts_lt (version self) base_version of
           Inl e \<Rightarrow> Inl e
         | Inr True \<Rightarrow> Inr False
         | Inr False \<Rightarrow>
             (case caret_upper [] base_version of
                Inl e \<Rightarrow> Inl e
              | Inr upper_parts \<Rightarrow>
                  parts_lt (version self) (Version (str_Version upper_parts))))
      else Inr (str_Version (version self) = constraint))"

section \<open>\<open>package.py\<close>: \<open>PackageGraph\<close>\<close>

text \<open>\<open>PackageGraph.packages\<close>: a dict from a name to the list of records added under it.\<close>

type_synonym PackageGraph = "string \<rightharpoonup> Package list"

definition add_package :: "PackageGraph \<Rightarrow> Package \<Rightarrow> PackageGraph" where
  "add_package packages package =
     (let packages' = (if name package \<notin> dom packages then packages(name package \<mapsto> []) else packages)
      in packages'(name package \<mapsto> the (packages' (name package)) @ [package]))"

text \<open>The list comprehension \<open>[pkg for pkg in pkgs if pkg.satisfies_constraint(c)]\<close>.\<close>

fun satisfying :: "Package list \<Rightarrow> string \<Rightarrow> exn + Package list" where
  "satisfying [] c = Inr []"
| "satisfying (pkg # pkgs) c =
     (case satisfies_constraint pkg c of
        Inl e \<Rightarrow> Inl e
      | Inr b \<Rightarrow>
          (case satisfying pkgs c of
             Inl e \<Rightarrow> Inl e
           | Inr rest \<Rightarrow> Inr (if b then pkg # rest else rest)))"

text \<open>
  \<open>max(candidates, key=lambda p: p.version)\<close>: the running maximum is replaced when
  \<open>key(item) > key(maximum)\<close>, which \<open>Version\<close> answers through the reflected
  \<open>__lt__\<close>.
\<close>

fun max_version :: "Package \<Rightarrow> Package list \<Rightarrow> exn + Package" where
  "max_version m [] = Inr m"
| "max_version m (p # ps) =
     (case parts_lt (version m) (version p) of
        Inl e \<Rightarrow> Inl e
      | Inr b \<Rightarrow> max_version (if b then p else m) ps)"

definition get_package :: "PackageGraph \<Rightarrow> string \<Rightarrow> string \<Rightarrow> exn + Package option" where
  "get_package packages nm version_constraint =
     (case packages nm of
        None \<Rightarrow> Inr None
      | Some pkgs \<Rightarrow>
          (case satisfying pkgs version_constraint of
             Inl e \<Rightarrow> Inl e
           | Inr candidates \<Rightarrow>
               (case candidates of
                  [] \<Rightarrow> Inr None
                | c # cs \<Rightarrow> map_sum id Some (max_version c cs))))"

section \<open>\<open>solver.py\<close>: \<open>Solver\<close>\<close>

text \<open>
  The mutable attributes of a \<open>Solver\<close> object. The two dictionaries are maps; the one
  keyed by \<open>Package\<close> objects is keyed by what \<open>Package.__eq__\<close> compares, the pair of
  name and version. \<open>cnf\<close> is the clause list of \<open>self._cnf\<close>.
\<close>

definition key :: "Package \<Rightarrow> string \<times> part list" where
  "key pkg = (name pkg, version pkg)"

record Solver =
  var_to_pkg :: "int \<rightharpoonup> Package"
  pkg_to_var :: "string \<times> part list \<rightharpoonup> int"
  next_var :: int
  cnf :: "int list list"

definition init_Solver :: Solver where
  "init_Solver = \<lparr>var_to_pkg = Map.empty, pkg_to_var = Map.empty, next_var = 1, cnf = []\<rparr>"

definition get_var :: "Package \<Rightarrow> Solver \<Rightarrow> int \<times> Solver" where
  "get_var pkg s =
     (case pkg_to_var s (key pkg) of
        Some v \<Rightarrow> (v, s)
      | None \<Rightarrow>
          (next_var s,
           s\<lparr>next_var := next_var s + 1,
             pkg_to_var := (pkg_to_var s)(key pkg \<mapsto> next_var s),
             var_to_pkg := (var_to_pkg s)(next_var s \<mapsto> pkg)\<rparr>))"

definition add_clause :: "int list \<Rightarrow> Solver \<Rightarrow> Solver" where
  "add_clause clause s = s\<lparr>cnf := cnf s @ [clause]\<rparr>"

text \<open>A \<open>for\<close> loop whose body may raise: the first exception ends the loop.\<close>

primrec for_loop :: "('a \<Rightarrow> 's \<Rightarrow> exn + 's) \<Rightarrow> 'a list \<Rightarrow> 's \<Rightarrow> exn + 's" where
  "for_loop body [] s = Inr s"
| "for_loop body (x # xs) s =
     (case body x s of Inl e \<Rightarrow> Inl e | Inr s' \<Rightarrow> for_loop body xs s')"

text \<open>\<open>self.graph.packages.get(name, [])\<close>.\<close>

definition packages_get :: "PackageGraph \<Rightarrow> string \<Rightarrow> Package list" where
  "packages_get packages nm = (case packages nm of None \<Rightarrow> [] | Some pkgs \<Rightarrow> pkgs)"

text \<open>The generator \<open>self._get_var(dep) for dep in candidates\<close>, consumed by \<open>extend\<close>.\<close>

primrec get_vars :: "Package list \<Rightarrow> Solver \<Rightarrow> int list \<times> Solver" where
  "get_vars [] s = ([], s)"
| "get_vars (dep # deps) s =
     (case get_var dep s of (v, s1) \<Rightarrow>
        (case get_vars deps s1 of (vs, s2) \<Rightarrow> (v # vs, s2)))"

text \<open>The first loop of \<open>_add_package_constraints\<close>: one clause per other version.\<close>

definition exclude_others :: "PackageGraph \<Rightarrow> Package \<Rightarrow> int \<Rightarrow> Solver \<Rightarrow> Solver" where
  "exclude_others g pkg pkg_var s =
     fold (\<lambda>other_pkg s.
             if \<not> pkg_eq other_pkg pkg then
               (case get_var other_pkg s of (other_var, s') \<Rightarrow>
                  add_clause [- pkg_var, - other_var] s')
             else s)
          (packages_get g (name pkg)) s"

definition no_candidate_message :: "string \<Rightarrow> string \<Rightarrow> Package \<Rightarrow> string" where
  "no_candidate_message dep_name constraint pkg =
     ''No package found for dependency: '' @ dep_name @ '' '' @ constraint @
     '' required by '' @ name pkg @ '' '' @ str_Version (version pkg)"

text \<open>
  \<open>_add_package_constraints\<close> calls itself for every candidate of every dependency and
  keeps no record of the packages already treated. The first argument is the number of
  nested calls the interpreter still allows: at \<open>0\<close> the call raises \<open>RecursionError\<close>
  (CPython may complete the message with the place where the limit was hit).
\<close>

primrec add_package_constraints ::
  "nat \<Rightarrow> PackageGraph \<Rightarrow> Package \<Rightarrow> Solver \<Rightarrow> exn + Solver" where
  "add_package_constraints 0 g pkg s = Inl (RecursionError ''maximum recursion depth exceeded'')"
| "add_package_constraints (Suc depth) g pkg s =
     (case get_var pkg s of (pkg_var, s1) \<Rightarrow>
        for_loop
          (\<lambda>(dep_name, constraint) s.
             case satisfying (packages_get g dep_name) constraint of
               Inl e \<Rightarrow> Inl e
             | Inr candidates \<Rightarrow>
                 if candidates = [] then
                   Inl (ResolutionError (no_candidate_message dep_name constraint pkg))
                 else
                   (case get_vars candidates s of (vars, s') \<Rightarrow>
                      for_loop (\<lambda>dep s. add_package_constraints depth g dep s) candidates
                        (add_clause (- pkg_var # vars) s')))
          (dependencies pkg)
          (exclude_others g pkg pkg_var s1))"

text \<open>
  A Python \<open>set\<close> of packages is a list without two elements equal under \<open>__eq__\<close>, in
  insertion order (the iteration order of the real set is that of the hashes).
\<close>

definition set_add :: "Package \<Rightarrow> Package list \<Rightarrow> Package list" where
  "set_add pkg xs = (if \<exists>q\<in>set xs. pkg_eq q pkg then xs else xs @ [pkg])"

definition extract_solution :: "Solver \<Rightarrow> int list \<Rightarrow> Package list" where
  "extract_solution s model =
     fold (\<lambda>var solution.
             if var > 0 \<and> var \<in> dom (var_to_pkg s)
             then set_add (the (var_to_pkg s var)) solution else solution)
          model []"

text \<open>
  \<open>_prune_solution\<close> builds the \<open>dependents\<close> table of the solution (evaluating constraints,
  which may raise), computes \<open>leaves\<close>, and returns the copy of its argument.
\<close>

definition prune_solution :: "Package list \<Rightarrow> exn + Package list" where
  "prune_solution solution =
     (let pkg_set = solution;
          dependents0 = map_of (map (\<lambda>pkg. (key pkg, [])) pkg_set)
      in case for_loop
                (\<lambda>pkg. for_loop
                   (\<lambda>(dep_name, constraint). for_loop
                      (\<lambda>dep dependents.
                         if name dep = dep_name then
                           (case satisfies_constraint dep constraint of
                              Inl e \<Rightarrow> Inl e
                            | Inr b \<Rightarrow>
                                Inr (if b then
                                       dependents(key dep \<mapsto> set_add pkg (the (dependents (key dep))))
                                     else dependents))
                         else Inr dependents)
                      pkg_set)
                   (dependencies pkg))
                pkg_set dependents0 of
           Inl e \<Rightarrow> Inl e
         | Inr dependents \<Rightarrow>
             (let leaves = filter (\<lambda>pkg. the (dependents (key pkg)) = []) pkg_set
              in Inr pkg_set))"

text \<open>
  The satisfiability oracle (PySAT's Glucose 3) is a parameter: it receives the clauses and
  answers \<open>None\<close> when \<open>solve()\<close> is false, or the model of \<open>get_model()\<close>, a list of
  signed variables.
\<close>

type_synonym sat_oracle = "int list list \<Rightarrow> int list option"

text \<open>The loop over the requested packages, on the solver's state.\<close>

definition add_requested ::
  "nat \<Rightarrow> PackageGraph \<Rightarrow> (string \<times> string) list \<Rightarrow> Solver \<Rightarrow> exn + Solver" where
  "add_requested limit g requested_pkgs s =
     for_loop
       (\<lambda>(pkg_name, constraint) s.
          case get_package g pkg_name constraint of
            Inl e \<Rightarrow> Inl e
          | Inr None \<Rightarrow>
              Inl (ResolutionError (''Package not found: '' @ pkg_name @ '' '' @ constraint))
          | Inr (Some pkg) \<Rightarrow>
              (case get_var pkg s of (v, s1) \<Rightarrow>
                 add_package_constraints limit g pkg (add_clause [v] s1)))
       requested_pkgs s"

text \<open>The \<open>try\<close> block of \<open>solve\<close>, on a solver just constructed.\<close>

definition solve_try ::
  "sat_oracle \<Rightarrow> nat \<Rightarrow> PackageGraph \<Rightarrow> (string \<times> string) list \<Rightarrow> exn + Package list" where
  "solve_try sat limit g requested_pkgs =
     (case add_requested limit g requested_pkgs init_Solver of
        Inl e \<Rightarrow> Inl e
      | Inr s \<Rightarrow>
          (case sat (cnf s) of
             None \<Rightarrow> Inl (ResolutionError ''No solution found for the given constraints'')
           | Some model \<Rightarrow> prune_solution (extract_solution s model)))"

text \<open>\<open>solve\<close>: the \<open>except Exception\<close> clause wraps whatever the block raised.\<close>

definition solve ::
  "sat_oracle \<Rightarrow> nat \<Rightarrow> PackageGraph \<Rightarrow> (string \<times> string) list \<Rightarrow> exn + Package list" where
  "solve sat limit g requested_pkgs =
     (case solve_try sat limit g requested_pkgs of
        Inl e \<Rightarrow> Inl (ResolutionError (''Failed to resolve dependencies: '' @ str_exn e))
      | Inr pruned_solution \<Rightarrow> Inr pruned_solution)"

text \<open>
  \<open>parallel_solve\<close> submits one call of \<open>self.solve\<close> per request and collects the futures
  in the order \<open>as_completed\<close> yields them. \<open>worker i r\<close> is what the \<open>i\<close>-th submitted call
  returns or raises, \<open>completed\<close> the order of completion (indices into \<open>requests\<close>). A call
  that raised contributes \<open>set()\<close>.
\<close>

definition parallel_solve ::
  "(nat \<Rightarrow> (string \<times> string) list \<Rightarrow> exn + Package list) \<Rightarrow> nat list \<Rightarrow>
   (string \<times> string) list list \<Rightarrow> Package list list" where
  "parallel_solve worker completed requests =
     (let futures = map (\<lambda>i. worker i (requests ! i)) [0..<length requests]
      in fold (\<lambda>i results.
                 case futures ! i of
                   Inr solution \<Rightarrow> results @ [solution]
                 | Inl e \<Rightarrow> results @ [[]])
              completed [])"

section \<open>Notions used to state the properties\<close>

text \<open>The value of a string of decimal digits, read from the left.\<close>

definition digits_value :: "nat \<Rightarrow> string \<Rightarrow> nat" where
  "digits_value acc ds = foldl (\<lambda>a c. 10 * a + digit_val c) acc ds"

text \<open>
  The integer components of a version. On versions made of integers only, the order of
  \<open>Version\<close> is the lexicographic order of these lists.
\<close>

definition ints :: "part list \<Rightarrow> int list" where
  "ints parts = map (\<lambda>p. case p of PInt i \<Rightarrow> i | PStr s \<Rightarrow> 0) parts"

text \<open>
  The next breaking version in the words of the specification: the first non-zero
  component is incremented and the components after it are set to zero. A version whose
  components are all zero has no component to increment and is left as it is.
\<close>

fun next_breaking :: "int list \<Rightarrow> int list" where
  "next_breaking [] = []"
| "next_breaking (b # bs) = (if b \<noteq> 0 then (b + 1) # map (\<lambda>_. 0) bs else 0 # next_breaking bs)"

text \<open>A graph built by successive calls of \<open>add_package\<close> on an empty \<open>PackageGraph\<close>.\<close>

definition graph_of :: "Package list \<Rightarrow> PackageGraph" where
  "graph_of pkgs = fold (\<lambda>package g. add_package g package) pkgs Map.empty"

text \<open>Every record is stored under its own name, as \<open>add_package\<close> stores it.\<close>

definition graph_wf :: "PackageGraph \<Rightarrow> bool" where
  "graph_wf g \<longleftrightarrow> (\<forall>nm pkgs. g nm = Some pkgs \<longrightarrow> (\<forall>p\<in>set pkgs. name p = nm))"

text \<open>
  \<open>depends_on g p q\<close>: \<open>q\<close> is one of the candidates the solver enumerates for a dependency of
  \<open>p\<close>. \<open>reach\<close> is the reflexive and transitive closure, and the dependency closure of a
  request is what is reachable from the packages that \<open>get_package\<close> returns for it.
\<close>

definition depends_on :: "PackageGraph \<Rightarrow> Package \<Rightarrow> Package \<Rightarrow> bool" where
  "depends_on g p q \<longleftrightarrow>
     (\<exists>(dep_name, constraint)\<in>set (dependencies p).
        \<exists>candidates. satisfying (packages_get g dep_name) constraint = Inr candidates \<and>
                     q \<in> set candidates)"

inductive reach :: "PackageGraph \<Rightarrow> Package \<Rightarrow> Package \<Rightarrow> bool" for g where
  reach_refl: "reach g p p"
| reach_step: "depends_on g p q \<Longrightarrow> reach g q r \<Longrightarrow> reach g p r"

definition requested_root :: "PackageGraph \<Rightarrow> (string \<times> string) list \<Rightarrow> Package \<Rightarrow> bool" where
  "requested_root g requested_pkgs r \<longleftrightarrow>
     (\<exists>(pkg_name, constraint)\<in>set requested_pkgs. get_package g pkg_name constraint = Inr (Some r))"

definition in_closure :: "PackageGraph \<Rightarrow> (string \<times> string) list \<Rightarrow> Package \<Rightarrow> bool" where
  "in_closure g requested_pkgs p \<longleftrightarrow> (\<exists>r. requested_root g requested_pkgs r \<and> reach g r p)"

text \<open>A dependency of \<open>p\<close> that no record of the graph satisfies.\<close>

definition unsatisfiable_dependency :: "PackageGraph \<Rightarrow> Package \<Rightarrow> bool" where
  "unsatisfiable_dependency g p \<longleftrightarrow>
     (\<exists>(dep_name, constraint)\<in>set (dependencies p).
        satisfying (packages_get g dep_name) constraint = Inr [])"

text \<open>
  What is assumed of the satisfiability oracle: a model it returns holds no variable with
  both signs and makes a literal of every clause true.
\<close>

definition satisfies_clauses :: "int list \<Rightarrow> int list list \<Rightarrow> bool" where
  "satisfies_clauses model clauses \<longleftrightarrow>
     (\<forall>l\<in>set model. - l \<notin> set model) \<and> (\<forall>cl\<in>set clauses. \<exists>l\<in>set cl. l \<in> set model)"

definition sound_oracle :: "sat_oracle \<Rightarrow> bool" where
  "sound_oracle sat \<longleftrightarrow> (\<forall>clauses model. sat clauses = Some model \<longrightarrow> satisfies_clauses model clauses)"

text \<open>An oracle that proposes one fixed assignment and checks it against the clauses.\<close>

definition fixed_model :: "int list \<Rightarrow> sat_oracle" where
  "fixed_model model clauses = (if satisfies_clauses model clauses then Some model else None)"

subsection \<open>Invariants of the solver state\<close>

text \<open>
  The two dictionaries are inverse to each other, variables are positive and below
  \<open>next_var\<close>, and every package with a variable is a record of the graph.
\<close>

definition inv :: "PackageGraph \<Rightarrow> Solver \<Rightarrow> bool" where
  "inv g s \<longleftrightarrow>
     0 < next_var s \<and>
     (\<forall>k v. pkg_to_var s k = Some v \<longrightarrow>
        0 < v \<and> v < next_var s \<and> (\<exists>p. var_to_pkg s v = Some p \<and> key p = k)) \<and>
     (\<forall>v p. var_to_pkg s v = Some p \<longrightarrow>
        pkg_to_var s (key p) = Some v \<and> p \<in> set (packages_get g (name p)))"

text \<open>A later state keeps the variables and the clauses of an earlier one.\<close>

definition ext :: "Solver \<Rightarrow> Solver \<Rightarrow> bool" where
  "ext s s' \<longleftrightarrow>
     pkg_to_var s \<subseteq>\<^sub>m pkg_to_var s' \<and> var_to_pkg s \<subseteq>\<^sub>m var_to_pkg s' \<and> set (cnf s) \<subseteq> set (cnf s')"

text \<open>The clauses of package \<open>p\<close> are in the formula: exclusions and dependencies.\<close>

definition emitted :: "PackageGraph \<Rightarrow> Solver \<Rightarrow> Package \<Rightarrow> bool" where
  "emitted g s p \<longleftrightarrow>
     (\<exists>pv. pkg_to_var s (key p) = Some pv \<and>
        (\<forall>other\<in>set (packages_get g (name p)). \<not> pkg_eq other p \<longrightarrow>
           (\<exists>ov. pkg_to_var s (key other) = Some ov \<and> [- pv, - ov] \<in> set (cnf s))) \<and>
        (\<forall>(dep_name, constraint)\<in>set (dependencies p).
           \<exists>cands vs. satisfying (packages_get g dep_name) constraint = Inr cands \<and>
             cands \<noteq> [] \<and> map (\<lambda>c. pkg_to_var s (key c)) cands = map Some vs \<and>
             (- pv # vs) \<in> set (cnf s)))"

text \<open>
  The body of the loop over the dependencies in \<open>_add_package_constraints\<close>, with the
  recursive call as a parameter.
\<close>

definition dependency_step ::
  "(Package \<Rightarrow> Solver \<Rightarrow> exn + Solver) \<Rightarrow> PackageGraph \<Rightarrow> Package \<Rightarrow> int \<Rightarrow>
   string \<times> string \<Rightarrow> Solver \<Rightarrow> exn + Solver" where
  "dependency_step recurse g pkg pkg_var =
     (\<lambda>(dep_name, constraint) s.
        case satisfying (packages_get g dep_name) constraint of
          Inl e \<Rightarrow> Inl e
        | Inr candidates \<Rightarrow>
            if candidates = [] then
              Inl (ResolutionError (no_candidate_message dep_name constraint pkg))
            else
              (case get_vars candidates s of (vars, s') \<Rightarrow>
                 for_loop recurse candidates (add_clause (- pkg_var # vars) s')))"

text \<open>The body of the loop over the requested packages in \<open>solve\<close>.\<close>

definition request_step ::
  "nat \<Rightarrow> PackageGraph \<Rightarrow> string \<times> string \<Rightarrow> Solver \<Rightarrow> exn + Solver" where
  "request_step limit g =
     (\<lambda>(pkg_name, constraint) s.
        case get_package g pkg_name constraint of
          Inl e \<Rightarrow> Inl e
        | Inr None \<Rightarrow>
            Inl (ResolutionError (''Package not found: '' @ pkg_name @ '' '' @ constraint))
        | Inr (Some pkg) \<Rightarrow>
            (case get_var pkg s of (v, s1) \<Rightarrow>
               add_package_constraints limit g pkg (add_clause [v] s1)))"

text \<open>
  What a successful call of \<open>_add_package_constraints\<close> establishes, for a package of the
  graph and a state that satisfies the invariant.
\<close>

definition call_ok :: "PackageGraph \<Rightarrow> (Package \<Rightarrow> Solver \<Rightarrow> exn + Solver) \<Rightarrow> bool" where
  "call_ok g recurse \<longleftrightarrow>
     (\<forall>p s s'. recurse p s = Inr s' \<longrightarrow> inv g s \<longrightarrow> p \<in> set (packages_get g (name p)) \<longrightarrow>
        inv g s' \<and> ext s s' \<and> (\<forall>q. reach g p q \<longrightarrow> emitted g s' q))"

section \<open>Packages and graphs used as concrete inputs\<close>

definition pkg_zero :: Package where
  "pkg_zero = mk_Package ''zero'' (Version ''0.0.0'') []"

definition pkg_mid :: Package where
  "pkg_mid = mk_Package ''mid'' (Version ''1.5.0'') []"

text \<open>Two versions of one package (scenario C of the specification).\<close>

definition x1 :: Package where
  "x1 = mk_Package ''X'' (Version ''1.0.0'') []"

definition x2 :: Package where
  "x2 = mk_Package ''X'' (Version ''2.0.0'') []"

definition graph_X :: PackageGraph where
  "graph_X = graph_of [x1, x2]"

text \<open>Scenario A of the specification, and scenario B (package \<open>E\<close>).\<close>

definition pa :: Package where
  "pa = mk_Package ''A'' (Version ''1.0.0'') [(''B'', ''>=1.0.0''), (''C'', ''>=1.0.0'')]"

definition pb :: Package where
  "pb = mk_Package ''B'' (Version ''1.0.0'') [(''D'', ''>=1.0.0'')]"

definition pc :: Package where
  "pc = mk_Package ''C'' (Version ''1.0.0'') [(''D'', ''>=1.0.0'')]"

definition pd :: Package where
  "pd = mk_Package ''D'' (Version ''1.0.0'') []"

definition pe :: Package where
  "pe = mk_Package ''E'' (Version ''1.0.0'') [(''nonexistent'', ''>=1.0.0'')]"

definition graph_A :: PackageGraph where
  "graph_A = graph_of [pa, pb, pc, pd, pe]"

text \<open>
  A graph in which \<open>L\<close> has two candidates for \<open>M\<close>, and only the first of them depends on
  \<open>N\<close>, with a constraint that one of the three versions of \<open>N\<close> satisfies.
\<close>

definition l1 :: Package where
  "l1 = mk_Package ''L'' (Version ''1.0.0'') [(''M'', ''*'')]"

definition m1 :: Package where
  "m1 = mk_Package ''M'' (Version ''1.0.0'') [(''N'', ''<2'')]"

definition m2 :: Package where
  "m2 = mk_Package ''M'' (Version ''2.0.0'') []"

definition n1 :: Package where
  "n1 = mk_Package ''N'' (Version ''1.0.0'') []"

definition n2 :: Package where
  "n2 = mk_Package ''N'' (Version ''2.0.0'') [(''Q'', ''*'')]"

definition n3 :: Package where
  "n3 = mk_Package ''N'' (Version ''3.0.0'') []"

definition graph_L :: PackageGraph where
  "graph_L = graph_of [l1, m1, m2, n1, n2, n3]"

section \<open>Strings and integers\<close>

lemma dropWhile_none: "(\<forall>x\<in>set xs. \<not> P x) \<Longrightarrow> dropWhile P xs = xs"
  by (cases xs) auto

lemma strip_no_space: "(\<forall>c\<in>set s. \<not> py_isspace c) \<Longrightarrow> strip s = s"
  by (simp add: strip_def dropWhile_none)

lemma of_char_digit_char: "d < 10 \<Longrightarrow> (of_char (digit_char d) :: nat) = 48 + d"
  by (simp add: digit_char_def)

lemma is_digit_digit_char: "d < 10 \<Longrightarrow> is_digit (digit_char d)"
  by (simp add: is_digit_def of_char_digit_char)

lemma digit_val_digit_char: "d < 10 \<Longrightarrow> digit_val (digit_char d) = d"
  by (simp add: digit_val_def of_char_digit_char)

lemma is_digit_not_space: "is_digit c \<Longrightarrow> \<not> py_isspace c"
  by (auto simp add: is_digit_def py_isspace_def)

lemma minus_not_space: "\<not> py_isspace (CHR ''-'')"
  by (simp add: py_isspace_def)

lemma is_digit_not_sign: "is_digit c \<Longrightarrow> c \<noteq> CHR ''-'' \<and> c \<noteq> CHR ''+'' \<and> c \<noteq> CHR ''.''"
  by (auto simp add: is_digit_def)

lemma str_nat_digits: "\<forall>c\<in>set (str_nat n). is_digit c"
proof (induction n rule: str_nat.induct)
  case (1 n)
  show ?case
  proof (cases "n < 10")
    case True
    then show ?thesis by (simp add: str_nat.simps [of n] is_digit_digit_char)
  next
    case False
    then show ?thesis using 1 by (simp add: str_nat.simps [of n] is_digit_digit_char)
  qed
qed

lemma str_nat_nonempty: "str_nat n \<noteq> []"
  by (simp add: str_nat.simps [of n])

lemma parse_digits_all_digits:
  "(\<forall>c\<in>set ds. is_digit c) \<Longrightarrow>
   parse_digits prev acc ds =
     (if ds = [] then (if prev then Some acc else None) else Some (digits_value acc ds))"
proof (induction ds arbitrary: prev acc)
  case Nil
  show ?case by simp
next
  case (Cons c cs)
  have c: "is_digit c" and cs: "\<forall>c\<in>set cs. is_digit c" using Cons.prems by simp_all
  have "parse_digits prev acc (c # cs) = parse_digits True (10 * acc + digit_val c) cs"
    using c by simp
  also have "\<dots> = (if cs = [] then Some (10 * acc + digit_val c)
                     else Some (digits_value (10 * acc + digit_val c) cs))"
    using Cons.IH [OF cs, of True "10 * acc + digit_val c"] by simp
  also have "\<dots> = Some (digits_value acc (c # cs))"
    by (simp add: digits_value_def)
  finally show ?case by simp
qed

lemma digits_value_str_nat: "digits_value 0 (str_nat n) = n"
proof (induction n rule: str_nat.induct)
  case (1 n)
  show ?case
  proof (cases "n < 10")
    case True
    then show ?thesis by (simp add: str_nat.simps [of n] digits_value_def digit_val_digit_char)
  next
    case False
    then have "digits_value 0 (str_nat (n div 10)) = n div 10" using 1 by simp
    then show ?thesis using False
      by (simp add: str_nat.simps [of n] digits_value_def digit_val_digit_char)
  qed
qed

lemma parse_str_nat: "parse_digits False 0 (str_nat n) = Some n"
  by (simp add: parse_digits_all_digits str_nat_digits str_nat_nonempty digits_value_str_nat)

text \<open>\<open>int(str(i)) == i\<close>.\<close>

lemma py_int_str_int: "py_int (str_int i) = Some i"
proof (cases "i < 0")
  case True
  have "\<forall>c\<in>set (CHR ''-'' # str_nat (nat (- i))). \<not> py_isspace c"
    using str_nat_digits [of "nat (- i)"] minus_not_space by (simp add: is_digit_not_space)
  then have "strip (str_int i) = CHR ''-'' # str_nat (nat (- i))"
    using True by (simp add: str_int_def strip_no_space del: set_simps)
  then show ?thesis using True by (simp add: py_int_def parse_str_nat)
next
  case False
  obtain c cs where cs: "str_nat (nat i) = c # cs"
    using str_nat_nonempty [of "nat i"] by (cases "str_nat (nat i)") auto
  have dig: "\<forall>c\<in>set (str_nat (nat i)). is_digit c" by (rule str_nat_digits)
  then have "strip (str_int i) = c # cs"
    using False cs by (simp add: str_int_def strip_no_space is_digit_not_space)
  moreover have "is_digit c" using dig cs by simp
  moreover have "parse_digits False 0 (c # cs) = Some (nat i)"
    using parse_str_nat [of "nat i"] cs by simp
  ultimately show ?thesis using False
    by (simp add: py_int_def is_digit_not_sign)
qed

lemma str_int_no_dot: "CHR ''.'' \<notin> set (str_int i)"
  using str_nat_digits is_digit_not_sign by (auto simp add: str_int_def)

lemma split_no_sep: "sep \<notin> set w \<Longrightarrow> split sep w = [w]"
  by (induction w) auto

lemma split_append_sep: "sep \<notin> set w \<Longrightarrow> split sep (w @ sep # r) = w # split sep r"
  by (induction w) auto

lemma split_join:
  "ws \<noteq> [] \<Longrightarrow> (\<forall>w\<in>set ws. CHR ''.'' \<notin> set w) \<Longrightarrow> split (CHR ''.'') (join ''.'' ws) = ws"
proof (induction "''.''" ws rule: join.induct)
  case 1
  then show ?case by simp
next
  case (2 w)
  then show ?case by (simp add: split_no_sep)
next
  case (3 w v ws)
  then show ?case by (simp add: split_append_sep)
qed

lemma split_nonempty: "split sep s \<noteq> []"
  by (induction s) (auto split: list.splits)

lemma Version_nonempty: "Version s \<noteq> []"
  by (simp add: Version_def split_nonempty)

text \<open>Printing a version made of integers and reading it again gives it back.\<close>

lemma Version_str_Version:
  "us \<noteq> [] \<Longrightarrow> Version (str_Version (map PInt us)) = map PInt us"
  by (simp add: Version_def str_Version_def split_join str_int_no_dot py_int_str_int comp_def)

section \<open>The order of versions made of integers\<close>

lemma parts_lt_ints: "parts_lt (map PInt xs) (map PInt ys) = Inr (xs < ys)"
  by (induction xs ys rule: list_induct2') auto

lemma parts_le_ints: "parts_le (map PInt xs) (map PInt ys) = Inr (xs \<le> ys)"
  by (induction xs ys rule: list_induct2') auto

lemma ints_map_PInt: "ints (map PInt xs) = xs"
  by (simp add: ints_def comp_def)

lemma caret_upper_ints:
  "caret_upper pre (map PInt bs) = Inr (pre @ map PInt (next_breaking bs))"
  by (induction bs arbitrary: pre) (simp_all add: comp_def flip: map_replicate_const)

lemma next_breaking_nonempty: "bs \<noteq> [] \<Longrightarrow> next_breaking bs \<noteq> []"
  by (cases bs) auto

lemma startswith_caret:
  "\<not> startswith (CHR ''^'' # V) ''=='' \<and> \<not> startswith (CHR ''^'' # V) ''>='' \<and>
   \<not> startswith (CHR ''^'' # V) ''<='' \<and> \<not> startswith (CHR ''^'' # V) ''>'' \<and>
   \<not> startswith (CHR ''^'' # V) ''<'' \<and> startswith (CHR ''^'' # V) ''^''"
  by (simp add: startswith_def)

lemma satisfies_caret_unfold:
  "satisfies_constraint self (CHR ''^'' # V) =
     (case parts_lt (version self) (Version (strip V)) of
        Inl e \<Rightarrow> Inl e
      | Inr True \<Rightarrow> Inr False
      | Inr False \<Rightarrow>
          (case caret_upper [] (Version (strip V)) of
             Inl e \<Rightarrow> Inl e
           | Inr upper_parts \<Rightarrow> parts_lt (version self) (Version (str_Version upper_parts))))"
  using startswith_caret [of V] by (simp add: satisfies_constraint_def Let_def)

section \<open>Caret ranges\<close>

text \<open>
  Claim C3, as the code has it. For a package whose version is made of integers \<open>vs\<close> and a
  constraint \<open>^V\<close> whose version \<open>V\<close> is made of integers \<open>bs\<close>, \<open>satisfies_constraint\<close>
  returns true exactly when \<open>bs \<le> vs\<close> and \<open>vs\<close> is below the next breaking version of \<open>bs\<close>
  (first non-zero component incremented, later ones zeroed). When every component of \<open>V\<close>
  is zero the upper bound is \<open>V\<close> itself, so the range is empty rather than unbounded:
  \<open>^1.2.3\<close> is the range from 1.2.3 up to, not including, 2.0.0, \<open>^0.2.3\<close> the range from 0.2.3
  up to 0.3.0, and \<open>^0.0.0\<close> matches no version.
\<close>

theorem caret_constraint_range:
  assumes "version self = map PInt vs"
    and "Version (strip V) = map PInt bs"
  shows "satisfies_constraint self (CHR ''^'' # V) = Inr (bs \<le> vs \<and> vs < next_breaking bs)"
proof -
  have ne: "bs \<noteq> []" using assms(2) Version_nonempty [of "strip V"] by auto
  have up: "caret_upper [] (Version (strip V)) = Inr (map PInt (next_breaking bs))"
    using caret_upper_ints [of "[]" bs] assms(2) by simp
  have reread: "Version (str_Version (map PInt (next_breaking bs))) = map PInt (next_breaking bs)"
    using ne by (simp add: Version_str_Version next_breaking_nonempty)
  have lt: "parts_lt (version self) (Version (strip V)) = Inr (vs < bs)"
    using assms by (simp add: parts_lt_ints)
  show ?thesis
  proof (cases "vs < bs")
    case True
    then have "\<not> bs \<le> vs" by (simp add: not_le)
    then show ?thesis using True lt by (simp add: satisfies_caret_unfold)
  next
    case False
    then have "bs \<le> vs" by (simp add: not_less)
    then show ?thesis using False lt up reread assms(1)
      by (simp add: satisfies_caret_unfold parts_lt_ints)
  qed
qed

theorem caret_constraint_range_witness:
  "satisfies_constraint pkg_mid ''^1.2.3'' = Inr True"
proof -
  have v: "version pkg_mid = map PInt [1, 5, 0]" by code_simp
  have b: "Version (strip ''1.2.3'') = map PInt [1, 2, 3]" by code_simp
  have "([1, 2, 3] :: int list) \<le> [1, 5, 0] \<and> ([1, 5, 0] :: int list) < next_breaking [1, 2, 3]"
    by simp
  then show ?thesis using caret_constraint_range [OF v b] by simp
qed

text \<open>
  Claim C3 as stated fails on a base version whose components are all zero: version 0.0.0
  is not below 0.0.0, the claim puts it in the range of \<open>^0.0.0\<close>, and the code answers false.
\<close>

theorem caret_all_zero_counterexample:
  "parts_le (Version ''0.0.0'') (version pkg_zero) = Inr True \<and>
   satisfies_constraint pkg_zero ''^0.0.0'' = Inr False"
  by code_simp

section \<open>Duplicate records\<close>

text \<open>
  Claim C9. \<open>PackageGraph.add_package\<close> appends without looking for an equal record: adding
  the same package twice leaves two records with the same name and version in the graph.
\<close>

theorem add_package_keeps_duplicate:
  "packages_get (add_package (add_package Map.empty pkg_zero) pkg_zero) ''zero'' =
     [pkg_zero, pkg_zero]"
  by (simp add: add_package_def packages_get_def pkg_zero_def mk_Package_def Let_def)

section \<open>Lookup of the maximum version\<close>

lemma satisfying_filter:
  "\<forall>p\<in>set pkgs. \<exists>b. satisfies_constraint p c = Inr b \<Longrightarrow>
   satisfying pkgs c = Inr (filter (\<lambda>p. satisfies_constraint p c = Inr True) pkgs)"
  by (induction pkgs) auto

lemma satisfying_set:
  "satisfying pkgs c = Inr cands \<Longrightarrow>
   cands = filter (\<lambda>p. satisfies_constraint p c = Inr True) pkgs"
  by (induction pkgs arbitrary: cands) (auto split: sum.splits if_splits)

lemma max_version_ints:
  "\<forall>p\<in>set (m # ps). \<exists>vs. version p = map PInt vs \<Longrightarrow>
   \<exists>r. max_version m ps = Inr r \<and> r \<in> set (m # ps) \<and>
       (\<forall>q\<in>set (m # ps). ints (version q) \<le> ints (version r))"
proof (induction ps arbitrary: m)
  case Nil
  then show ?case by simp
next
  case (Cons p ps)
  obtain a b where a: "version m = map PInt a" and b: "version p = map PInt b"
    using Cons.prems by auto
  let ?m' = "if a < b then p else m"
  have lt: "parts_lt (version m) (version p) = Inr (a < b)"
    by (simp add: a b parts_lt_ints)
  have "\<forall>q\<in>set (?m' # ps). \<exists>vs. version q = map PInt vs"
    using Cons.prems by auto
  from Cons.IH [OF this] obtain r where r: "max_version ?m' ps = Inr r"
    "r \<in> set (?m' # ps)" "\<forall>q\<in>set (?m' # ps). ints (version q) \<le> ints (version r)"
    by blast
  have m': "ints (version ?m') \<le> ints (version r)" using r(3) by simp
  have "ints (version m) \<le> ints (version ?m')" "ints (version p) \<le> ints (version ?m')"
    by (auto simp add: a b ints_map_PInt not_less)
  then have "ints (version m) \<le> ints (version r)" "ints (version p) \<le> ints (version r)"
    using m' by (blast intro: order_trans)+
  moreover have "max_version m (p # ps) = Inr r" using r(1) lt by simp
  moreover have "r \<in> set (m # p # ps)" using r(2) by (auto split: if_splits)
  ultimately show ?case using r(3) by auto
qed

text \<open>
  Claim C7. Where the records under \<open>nm\<close> have versions made of integers and the constraint
  can be evaluated on each of them, \<open>get_package\<close> returns (it does not raise); it returns
  \<open>None\<close> exactly when the name is unknown or no record under it satisfies the constraint;
  and a record it returns is one of the records under \<open>nm\<close>, satisfies the constraint, and
  has a version at least as large as that of every record under \<open>nm\<close> that satisfies it.
\<close>

theorem get_package_maximum:
  assumes "\<forall>p\<in>set (packages_get g nm).
             (\<exists>vs. version p = map PInt vs) \<and> (\<exists>b. satisfies_constraint p c = Inr b)"
  shows "(\<exists>res. get_package g nm c = Inr res) \<and>
         (get_package g nm c = Inr None \<longleftrightarrow>
            g nm = None \<or> \<not> (\<exists>p\<in>set (packages_get g nm). satisfies_constraint p c = Inr True)) \<and>
         (\<forall>r. get_package g nm c = Inr (Some r) \<longrightarrow>
            r \<in> set (packages_get g nm) \<and> satisfies_constraint r c = Inr True \<and>
            (\<forall>q\<in>set (packages_get g nm). satisfies_constraint q c = Inr True \<longrightarrow>
               ints (version q) \<le> ints (version r)))"
proof (cases "g nm")
  case None
  then show ?thesis by (simp add: get_package_def packages_get_def)
next
  case (Some pkgs)
  let ?cands = "filter (\<lambda>p. satisfies_constraint p c = Inr True) pkgs"
  have pg: "packages_get g nm = pkgs" using Some by (simp add: packages_get_def)
  have sat: "satisfying pkgs c = Inr ?cands"
    using assms pg by (simp add: satisfying_filter)
  show ?thesis
  proof (cases ?cands)
    case Nil
    then have "get_package g nm c = Inr None" using Some sat by (simp add: get_package_def)
    moreover have "\<not> (\<exists>p\<in>set pkgs. satisfies_constraint p c = Inr True)"
      using Nil by (auto simp add: filter_empty_conv)
    ultimately show ?thesis using pg by simp
  next
    case (Cons m ps)
    have "\<forall>p\<in>set (m # ps). \<exists>vs. version p = map PInt vs"
    proof
      fix p assume "p \<in> set (m # ps)"
      then have "p \<in> set ?cands" using Cons by simp
      then show "\<exists>vs. version p = map PInt vs" using assms pg by auto
    qed
    from max_version_ints [OF this] obtain r where r: "max_version m ps = Inr r"
      "r \<in> set (m # ps)" "\<forall>q\<in>set (m # ps). ints (version q) \<le> ints (version r)"
      by blast
    have get: "get_package g nm c = Inr (Some r)"
      using Some sat Cons r(1) by (simp add: get_package_def)
    have mem: "set (m # ps) = {p \<in> set pkgs. satisfies_constraint p c = Inr True}"
      using Cons [symmetric] by simp
    have "m \<in> set (m # ps)" by simp
    then have ex: "\<exists>p\<in>set pkgs. satisfies_constraint p c = Inr True"
      unfolding mem by blast
    have "r \<in> set pkgs" "satisfies_constraint r c = Inr True"
      using r(2) unfolding mem by simp_all
    moreover have "\<forall>q\<in>set pkgs. satisfies_constraint q c = Inr True \<longrightarrow>
        ints (version q) \<le> ints (version r)"
      using r(3) unfolding mem by simp
    ultimately show ?thesis using get ex pg Some by simp
  qed
qed


theorem get_package_maximum_witness:
  "get_package graph_X ''X'' ''>=1.0.0'' = Inr (Some x2)"
proof -
  have pg: "packages_get graph_X ''X'' = [x1, x2]" by code_simp
  have v1: "version x1 = map PInt [1, 0, 0]" by code_simp
  have v2: "version x2 = map PInt [2, 0, 0]" by code_simp
  have v: "\<exists>vs. version x1 = map PInt vs" "\<exists>vs. version x2 = map PInt vs"
    using v1 v2 by blast+
  have s: "satisfies_constraint x1 ''>=1.0.0'' = Inr True"
    "satisfies_constraint x2 ''>=1.0.0'' = Inr True" by code_simp+
  have hyp: "\<forall>p\<in>set (packages_get graph_X ''X'').
      (\<exists>vs. version p = map PInt vs) \<and> (\<exists>b. satisfies_constraint p ''>=1.0.0'' = Inr b)"
    unfolding pg using v s by auto
  from get_package_maximum [OF hyp] obtain res where
    res: "get_package graph_X ''X'' ''>=1.0.0'' = Inr res"
    and none: "get_package graph_X ''X'' ''>=1.0.0'' = Inr None \<longleftrightarrow>
      graph_X ''X'' = None \<or>
      \<not> (\<exists>p\<in>set (packages_get graph_X ''X''). satisfies_constraint p ''>=1.0.0'' = Inr True)"
    and some: "\<forall>r. get_package graph_X ''X'' ''>=1.0.0'' = Inr (Some r) \<longrightarrow>
      r \<in> set (packages_get graph_X ''X'') \<and> satisfies_constraint r ''>=1.0.0'' = Inr True \<and>
      (\<forall>q\<in>set (packages_get graph_X ''X''). satisfies_constraint q ''>=1.0.0'' = Inr True \<longrightarrow>
         ints (version q) \<le> ints (version r))"
    by blast
  have known: "graph_X ''X'' \<noteq> None" by code_simp
  have "res \<noteq> None" using res none known pg s by auto
  then obtain r where r: "res = Some r" by auto
  have "r \<in> {x1, x2}" and "ints (version x2) \<le> ints (version r)"
    using some res r pg s by auto
  moreover have "\<not> ints (version x2) \<le> ints (version x1)"
    by (simp only: v1 v2 ints_map_PInt) simp
  ultimately have "r = x2" by auto
  then show ?thesis using res r by simp
qed

section \<open>The solver state\<close>

lemma ext_refl: "ext s s"
  by (simp add: ext_def)

lemma ext_trans: "ext s t \<Longrightarrow> ext t u \<Longrightarrow> ext s u"
  unfolding ext_def by (blast intro: map_le_trans)

lemma ext_pkg_to_var: "ext s t \<Longrightarrow> pkg_to_var s k = Some v \<Longrightarrow> pkg_to_var t k = Some v"
  unfolding ext_def map_le_def by (metis domI)

lemma ext_cnf: "ext s t \<Longrightarrow> cl \<in> set (cnf s) \<Longrightarrow> cl \<in> set (cnf t)"
  unfolding ext_def by blast

lemma inv_init: "inv g init_Solver"
  by (simp add: inv_def init_Solver_def)

lemma inv_var_bound: "inv g s \<Longrightarrow> var_to_pkg s v = Some p \<Longrightarrow> 0 < v \<and> v < next_var s"
  unfolding inv_def by blast

lemma get_var_props:
  assumes "inv g s" and "p \<in> set (packages_get g (name p))" and "get_var p s = (v, s')"
  shows "inv g s' \<and> ext s s' \<and> pkg_to_var s' (key p) = Some v \<and> cnf s' = cnf s"
proof (cases "pkg_to_var s (key p)")
  case (Some w)
  then show ?thesis using assms by (auto simp add: get_var_def ext_refl)
next
  case None
  let ?n = "next_var s"
  have s': "s' = s\<lparr>next_var := ?n + 1, pkg_to_var := (pkg_to_var s)(key p \<mapsto> ?n),
                   var_to_pkg := (var_to_pkg s)(?n \<mapsto> p)\<rparr>" and v: "v = ?n"
    using assms(3) None by (auto simp add: get_var_def)
  have fresh: "var_to_pkg s ?n = None"
  proof (cases "var_to_pkg s ?n")
    case (Some q)
    then show ?thesis using inv_var_bound [OF assms(1) Some] by simp
  qed simp
  have pos: "0 < ?n" using assms(1) by (simp add: inv_def)
  have a: "\<forall>k w. pkg_to_var s k = Some w \<longrightarrow>
        0 < w \<and> w < ?n \<and> (\<exists>q. var_to_pkg s w = Some q \<and> key q = k)"
    and b: "\<forall>w q. var_to_pkg s w = Some q \<longrightarrow>
        pkg_to_var s (key q) = Some w \<and> q \<in> set (packages_get g (name q))"
    using assms(1) by (simp_all add: inv_def)
  have i1: "\<forall>k w. pkg_to_var s' k = Some w \<longrightarrow>
        0 < w \<and> w < next_var s' \<and> (\<exists>q. var_to_pkg s' w = Some q \<and> key q = k)"
  proof (intro allI impI)
    fix k w assume kw: "pkg_to_var s' k = Some w"
    show "0 < w \<and> w < next_var s' \<and> (\<exists>q. var_to_pkg s' w = Some q \<and> key q = k)"
    proof (cases "k = key p")
      case True
      then show ?thesis using kw pos by (simp add: s')
    next
      case False
      then have old: "pkg_to_var s k = Some w" using kw by (simp add: s')
      then have "0 < w \<and> w < ?n \<and> (\<exists>q. var_to_pkg s w = Some q \<and> key q = k)"
        using a by blast
      then show ?thesis by (auto simp add: s')
    qed
  qed
  have i2: "\<forall>w q. var_to_pkg s' w = Some q \<longrightarrow>
        pkg_to_var s' (key q) = Some w \<and> q \<in> set (packages_get g (name q))"
  proof (intro allI impI)
    fix w q assume wq: "var_to_pkg s' w = Some q"
    show "pkg_to_var s' (key q) = Some w \<and> q \<in> set (packages_get g (name q))"
    proof (cases "w = ?n")
      case True
      then show ?thesis using wq assms(2) by (simp add: s')
    next
      case False
      then have old: "var_to_pkg s w = Some q" using wq by (simp add: s')
      then have "pkg_to_var s (key q) = Some w \<and> q \<in> set (packages_get g (name q))"
        using b by blast
      moreover have "key q \<noteq> key p" using calculation None by auto
      ultimately show ?thesis by (simp add: s')
    qed
  qed
  have "inv g s'" unfolding inv_def using i1 i2 pos by (simp add: s')
  moreover have "ext s s'"
    unfolding ext_def map_le_def using None fresh by (auto simp add: s')
  ultimately show ?thesis by (simp add: s' v)
qed

lemma add_clause_props:
  "inv g s \<Longrightarrow> inv g (add_clause cl s) \<and> ext s (add_clause cl s) \<and>
     cl \<in> set (cnf (add_clause cl s)) \<and> pkg_to_var (add_clause cl s) = pkg_to_var s"
  by (auto simp add: inv_def ext_def add_clause_def)

lemma emitted_mono:
  assumes "ext s t" and "emitted g s p"
  shows "emitted g t p"
proof -
  from assms(2) obtain pv where pv: "pkg_to_var s (key p) = Some pv"
    and ex: "\<forall>other\<in>set (packages_get g (name p)). \<not> pkg_eq other p \<longrightarrow>
           (\<exists>ov. pkg_to_var s (key other) = Some ov \<and> [- pv, - ov] \<in> set (cnf s))"
    and dp: "\<forall>(dep_name, constraint)\<in>set (dependencies p).
           \<exists>cands vs. satisfying (packages_get g dep_name) constraint = Inr cands \<and>
             cands \<noteq> [] \<and> map (\<lambda>c. pkg_to_var s (key c)) cands = map Some vs \<and>
             (- pv # vs) \<in> set (cnf s)"
    unfolding emitted_def by blast
  have pv': "pkg_to_var t (key p) = Some pv" using ext_pkg_to_var [OF assms(1) pv] .
  have ex': "\<forall>other\<in>set (packages_get g (name p)). \<not> pkg_eq other p \<longrightarrow>
           (\<exists>ov. pkg_to_var t (key other) = Some ov \<and> [- pv, - ov] \<in> set (cnf t))"
    using ex ext_pkg_to_var [OF assms(1)] ext_cnf [OF assms(1)] by blast
  have dp': "\<forall>(dep_name, constraint)\<in>set (dependencies p).
           \<exists>cands vs. satisfying (packages_get g dep_name) constraint = Inr cands \<and>
             cands \<noteq> [] \<and> map (\<lambda>c. pkg_to_var t (key c)) cands = map Some vs \<and>
             (- pv # vs) \<in> set (cnf t)"
  proof (intro ballI, clarify)
    fix dn c assume "(dn, c) \<in> set (dependencies p)"
    then obtain cands vs where h: "satisfying (packages_get g dn) c = Inr cands" "cands \<noteq> []"
      "map (\<lambda>c. pkg_to_var s (key c)) cands = map Some vs" "(- pv # vs) \<in> set (cnf s)"
      using dp by blast
    have "\<forall>c\<in>set cands. pkg_to_var t (key c) = pkg_to_var s (key c)"
    proof
      fix x assume "x \<in> set cands"
      then have "pkg_to_var s (key x) \<in> set (map Some vs)" using h(3) [symmetric] by auto
      then obtain w where "pkg_to_var s (key x) = Some w" by auto
      then show "pkg_to_var t (key x) = pkg_to_var s (key x)"
        using ext_pkg_to_var [OF assms(1)] by simp
    qed
    then have "map (\<lambda>c. pkg_to_var t (key c)) cands = map Some vs" using h(3) by (simp cong: map_cong)
    then show "\<exists>cands vs. satisfying (packages_get g dn) c = Inr cands \<and>
             cands \<noteq> [] \<and> map (\<lambda>c. pkg_to_var t (key c)) cands = map Some vs \<and>
             (- pv # vs) \<in> set (cnf t)"
      using h ext_cnf [OF assms(1)] by blast
  qed
  show ?thesis unfolding emitted_def using pv' ex' dp' by blast
qed

lemma graph_wf_member:
  "graph_wf g \<Longrightarrow> p \<in> set (packages_get g nm) \<Longrightarrow> name p = nm"
  unfolding graph_wf_def packages_get_def by (cases "g nm") auto

lemma graph_wf_own:
  "graph_wf g \<Longrightarrow> p \<in> set (packages_get g nm) \<Longrightarrow> p \<in> set (packages_get g (name p))"
  using graph_wf_member by blast

lemma satisfying_subset: "satisfying pkgs c = Inr cands \<Longrightarrow> set cands \<subseteq> set pkgs"
  by (induction pkgs arbitrary: cands) (auto split: sum.splits if_splits)

lemma satisfying_holds:
  "satisfying pkgs c = Inr cands \<Longrightarrow> q \<in> set cands \<Longrightarrow> satisfies_constraint q c = Inr True"
  by (induction pkgs arbitrary: cands) (auto split: sum.splits if_splits)

lemma exclude_fold:
  assumes "inv g s" and "\<forall>x\<in>set xs. x \<in> set (packages_get g (name x))"
    and "pkg_to_var s (key pkg) = Some pv"
  shows "inv g (fold (\<lambda>other_pkg s.
             if \<not> pkg_eq other_pkg pkg then
               (case get_var other_pkg s of (other_var, s') \<Rightarrow>
                  add_clause [- pv, - other_var] s')
             else s) xs s) \<and>
         ext s (fold (\<lambda>other_pkg s.
             if \<not> pkg_eq other_pkg pkg then
               (case get_var other_pkg s of (other_var, s') \<Rightarrow>
                  add_clause [- pv, - other_var] s')
             else s) xs s) \<and>
         (\<forall>x\<in>set xs. \<not> pkg_eq x pkg \<longrightarrow>
            (\<exists>ov. pkg_to_var (fold (\<lambda>other_pkg s.
             if \<not> pkg_eq other_pkg pkg then
               (case get_var other_pkg s of (other_var, s') \<Rightarrow>
                  add_clause [- pv, - other_var] s')
             else s) xs s) (key x) = Some ov \<and>
               [- pv, - ov] \<in> set (cnf (fold (\<lambda>other_pkg s.
             if \<not> pkg_eq other_pkg pkg then
               (case get_var other_pkg s of (other_var, s') \<Rightarrow>
                  add_clause [- pv, - other_var] s')
             else s) xs s))))"
  (is "inv g (fold ?f xs s) \<and> _ \<and> _")
  using assms
proof (induction xs arbitrary: s)
  case Nil
  then show ?case by (simp add: ext_refl)
next
  case (Cons x xs)
  let ?s1 = "?f x s"
  have step: "inv g ?s1 \<and> ext s ?s1 \<and>
      (\<not> pkg_eq x pkg \<longrightarrow> (\<exists>ov. pkg_to_var ?s1 (key x) = Some ov \<and> [- pv, - ov] \<in> set (cnf ?s1)))"
  proof (cases "pkg_eq x pkg")
    case True
    then show ?thesis using Cons.prems(1) by (simp add: ext_refl)
  next
    case False
    obtain ov s' where gv: "get_var x s = (ov, s')" by (cases "get_var x s")
    have x: "x \<in> set (packages_get g (name x))" using Cons.prems(2) by simp
    from get_var_props [OF Cons.prems(1) x gv]
    have p: "inv g s'" "ext s s'" "pkg_to_var s' (key x) = Some ov" by simp_all
    from add_clause_props [OF p(1), of "[- pv, - ov]"]
    have q: "inv g (add_clause [- pv, - ov] s')" "ext s' (add_clause [- pv, - ov] s')"
      "[- pv, - ov] \<in> set (cnf (add_clause [- pv, - ov] s'))"
      "pkg_to_var (add_clause [- pv, - ov] s') = pkg_to_var s'" by simp_all
    have s1: "?s1 = add_clause [- pv, - ov] s'" using False gv by simp
    show ?thesis unfolding s1 using q p ext_trans by auto
  qed
  have pv1: "pkg_to_var ?s1 (key pkg) = Some pv"
    using step Cons.prems(3) ext_pkg_to_var by blast
  have rest: "\<forall>x\<in>set xs. x \<in> set (packages_get g (name x))" using Cons.prems(2) by simp
  from Cons.IH [of ?s1, OF _ rest pv1] step
  have ih: "inv g (fold ?f xs ?s1)" "ext ?s1 (fold ?f xs ?s1)"
    "\<forall>x\<in>set xs. \<not> pkg_eq x pkg \<longrightarrow>
       (\<exists>ov. pkg_to_var (fold ?f xs ?s1) (key x) = Some ov \<and> [- pv, - ov] \<in> set (cnf (fold ?f xs ?s1)))"
    by blast+
  have f: "fold ?f (x # xs) s = fold ?f xs ?s1" by simp
  have e: "ext s (fold ?f xs ?s1)" using step ih(2) ext_trans by blast
  have h: "\<not> pkg_eq x pkg \<longrightarrow>
       (\<exists>ov. pkg_to_var (fold ?f xs ?s1) (key x) = Some ov \<and> [- pv, - ov] \<in> set (cnf (fold ?f xs ?s1)))"
    using step ih(2) ext_pkg_to_var ext_cnf by blast
  show ?case unfolding f using ih(1) e h ih(3) by simp
qed

lemma exclude_others_props:
  assumes "graph_wf g" and "inv g s" and "pkg_to_var s (key pkg) = Some pv"
  shows "inv g (exclude_others g pkg pv s) \<and> ext s (exclude_others g pkg pv s) \<and>
         (\<forall>x\<in>set (packages_get g (name pkg)). \<not> pkg_eq x pkg \<longrightarrow>
            (\<exists>ov. pkg_to_var (exclude_others g pkg pv s) (key x) = Some ov \<and>
                  [- pv, - ov] \<in> set (cnf (exclude_others g pkg pv s))))"
proof -
  have "\<forall>x\<in>set (packages_get g (name pkg)). x \<in> set (packages_get g (name x))"
    using graph_wf_own [OF assms(1)] by blast
  from exclude_fold [OF assms(2) this assms(3)] show ?thesis
    unfolding exclude_others_def .
qed

lemma get_vars_props:
  assumes "inv g s" and "\<forall>c\<in>set cs. c \<in> set (packages_get g (name c))"
    and "get_vars cs s = (vs, s')"
  shows "inv g s' \<and> ext s s' \<and> cnf s' = cnf s \<and>
         map (\<lambda>c. pkg_to_var s' (key c)) cs = map Some vs"
  using assms
proof (induction cs arbitrary: s vs s')
  case Nil
  then show ?case by (simp add: ext_refl)
next
  case (Cons c cs)
  obtain v s1 where gv: "get_var c s = (v, s1)" by (cases "get_var c s")
  obtain ws s2 where gvs: "get_vars cs s1 = (ws, s2)" by (cases "get_vars cs s1")
  have res: "vs = v # ws" "s' = s2" using Cons.prems(3) gv gvs by simp_all
  have c: "c \<in> set (packages_get g (name c))" using Cons.prems(2) by simp
  from get_var_props [OF Cons.prems(1) c gv]
  have p: "inv g s1" "ext s s1" "pkg_to_var s1 (key c) = Some v" "cnf s1 = cnf s" by simp_all
  have cs: "\<forall>c\<in>set cs. c \<in> set (packages_get g (name c))" using Cons.prems(2) by simp
  from Cons.IH [OF p(1) cs gvs]
  have ih: "inv g s2" "ext s1 s2" "cnf s2 = cnf s1"
    "map (\<lambda>c. pkg_to_var s2 (key c)) cs = map Some ws" by simp_all
  have "pkg_to_var s2 (key c) = Some v" using ext_pkg_to_var [OF ih(2) p(3)] .
  then show ?case using ih p res ext_trans by auto
qed

section \<open>Clause emission\<close>

lemma apc_Suc:
  "add_package_constraints (Suc depth) g pkg s =
     (case get_var pkg s of (pkg_var, s1) \<Rightarrow>
        for_loop (dependency_step (add_package_constraints depth g) g pkg pkg_var)
          (dependencies pkg) (exclude_others g pkg pkg_var s1))"
  by (simp add: dependency_step_def)

lemma add_requested_step:
  "add_requested limit g requested_pkgs s = for_loop (request_step limit g) requested_pkgs s"
  by (simp add: add_requested_def request_step_def)

lemma candidates_loop:
  assumes "call_ok g recurse"
    and "for_loop recurse cs s = Inr s'" and "inv g s"
    and "\<forall>c\<in>set cs. c \<in> set (packages_get g (name c))"
  shows "inv g s' \<and> ext s s' \<and> (\<forall>c\<in>set cs. \<forall>q. reach g c q \<longrightarrow> emitted g s' q)"
  using assms(2-)
proof (induction cs arbitrary: s)
  case Nil
  then show ?case by (simp add: ext_refl)
next
  case (Cons c cs)
  from Cons.prems(1) obtain s1 where s1: "recurse c s = Inr s1" "for_loop recurse cs s1 = Inr s'"
    by (auto split: sum.splits)
  have c: "c \<in> set (packages_get g (name c))" using Cons.prems(3) by simp
  from assms(1) s1(1) Cons.prems(2) c
  have h: "inv g s1" "ext s s1" "\<forall>q. reach g c q \<longrightarrow> emitted g s1 q"
    unfolding call_ok_def by blast+
  have cs: "\<forall>c\<in>set cs. c \<in> set (packages_get g (name c))" using Cons.prems(3) by simp
  from Cons.IH [OF s1(2) h(1) cs]
  have ih: "inv g s'" "ext s1 s'" "\<forall>c\<in>set cs. \<forall>q. reach g c q \<longrightarrow> emitted g s' q" by blast+
  have "\<forall>q. reach g c q \<longrightarrow> emitted g s' q" using h(3) emitted_mono [OF ih(2)] by blast
  then show ?case using ih ext_trans [OF h(2) ih(2)] by simp
qed

lemma dependency_step_props:
  assumes "graph_wf g" and "call_ok g recurse"
    and "dependency_step recurse g pkg pv (dn, c) s = Inr s'" and "inv g s"
  shows "inv g s' \<and> ext s s' \<and>
         (\<exists>cands vs. satisfying (packages_get g dn) c = Inr cands \<and> cands \<noteq> [] \<and>
            map (\<lambda>c. pkg_to_var s' (key c)) cands = map Some vs \<and> (- pv # vs) \<in> set (cnf s') \<and>
            (\<forall>cand\<in>set cands. \<forall>q. reach g cand q \<longrightarrow> emitted g s' q))"
proof -
  from assms(3) obtain cands where cands: "satisfying (packages_get g dn) c = Inr cands"
    by (auto simp add: dependency_step_def split: sum.splits)
  have ne: "cands \<noteq> []" using assms(3) cands
    by (auto simp add: dependency_step_def split: if_splits)
  obtain vs s1 where gv: "get_vars cands s = (vs, s1)" by (cases "get_vars cands s")
  let ?s2 = "add_clause (- pv # vs) s1"
  have loop: "for_loop recurse cands ?s2 = Inr s'"
    using assms(3) cands ne gv by (simp add: dependency_step_def)
  have mem: "\<forall>x\<in>set cands. x \<in> set (packages_get g (name x))"
    using satisfying_subset [OF cands] graph_wf_own [OF assms(1)] by blast
  from get_vars_props [OF assms(4) mem gv]
  have p: "inv g s1" "ext s s1" "map (\<lambda>c. pkg_to_var s1 (key c)) cands = map Some vs" by simp_all
  from add_clause_props [OF p(1), of "- pv # vs"]
  have q: "inv g ?s2" "ext s1 ?s2" "(- pv # vs) \<in> set (cnf ?s2)" "pkg_to_var ?s2 = pkg_to_var s1"
    by simp_all
  from candidates_loop [OF assms(2) loop q(1) mem]
  have r: "inv g s'" "ext ?s2 s'" "\<forall>cand\<in>set cands. \<forall>q. reach g cand q \<longrightarrow> emitted g s' q"
    by blast+
  have "\<forall>x\<in>set cands. pkg_to_var s' (key x) = pkg_to_var s1 (key x)"
  proof
    fix x assume "x \<in> set cands"
    then have "pkg_to_var s1 (key x) \<in> set (map Some vs)" using p(3) [symmetric] by auto
    then obtain w where w: "pkg_to_var s1 (key x) = Some w" by auto
    then have "pkg_to_var ?s2 (key x) = Some w" using q(4) by simp
    then show "pkg_to_var s' (key x) = pkg_to_var s1 (key x)"
      using ext_pkg_to_var [OF r(2)] w by simp
  qed
  then have m: "map (\<lambda>c. pkg_to_var s' (key c)) cands = map Some vs"
    using p(3) by (simp cong: map_cong)
  have e: "ext s s'" using ext_trans [OF p(2) ext_trans [OF q(2) r(2)]] .
  have cl: "(- pv # vs) \<in> set (cnf s')" using ext_cnf [OF r(2) q(3)] .
  show ?thesis using r(1) e cands ne m cl r(3) by blast
qed

lemma dependencies_loop:
  assumes "graph_wf g" and "call_ok g recurse"
    and "for_loop (dependency_step recurse g pkg pv) deps s = Inr s'" and "inv g s"
  shows "inv g s' \<and> ext s s' \<and>
         (\<forall>(dn, c)\<in>set deps.
            \<exists>cands vs. satisfying (packages_get g dn) c = Inr cands \<and> cands \<noteq> [] \<and>
              map (\<lambda>c. pkg_to_var s' (key c)) cands = map Some vs \<and> (- pv # vs) \<in> set (cnf s') \<and>
              (\<forall>cand\<in>set cands. \<forall>q. reach g cand q \<longrightarrow> emitted g s' q))"
  using assms(3-)
proof (induction deps arbitrary: s)
  case Nil
  then show ?case by (simp add: ext_refl)
next
  case (Cons d deps)
  obtain dn c where d: "d = (dn, c)" by (cases d)
  from Cons.prems(1) obtain s1 where
    s1: "dependency_step recurse g pkg pv (dn, c) s = Inr s1"
        "for_loop (dependency_step recurse g pkg pv) deps s1 = Inr s'"
    unfolding d by (auto split: sum.splits)
  from dependency_step_props [OF assms(1,2) s1(1) Cons.prems(2)]
  obtain cands vs where h: "inv g s1" "ext s s1"
    "satisfying (packages_get g dn) c = Inr cands" "cands \<noteq> []"
    "map (\<lambda>c. pkg_to_var s1 (key c)) cands = map Some vs" "(- pv # vs) \<in> set (cnf s1)"
    "\<forall>cand\<in>set cands. \<forall>q. reach g cand q \<longrightarrow> emitted g s1 q"
    by blast
  from Cons.IH [OF s1(2) h(1)]
  have ih: "inv g s'" "ext s1 s'"
    "\<forall>(dn, c)\<in>set deps.
            \<exists>cands vs. satisfying (packages_get g dn) c = Inr cands \<and> cands \<noteq> [] \<and>
              map (\<lambda>c. pkg_to_var s' (key c)) cands = map Some vs \<and> (- pv # vs) \<in> set (cnf s') \<and>
              (\<forall>cand\<in>set cands. \<forall>q. reach g cand q \<longrightarrow> emitted g s' q)"
    by blast+
  have "\<forall>x\<in>set cands. pkg_to_var s' (key x) = pkg_to_var s1 (key x)"
  proof
    fix x assume "x \<in> set cands"
    then have "pkg_to_var s1 (key x) \<in> set (map Some vs)" using h(5) [symmetric] by auto
    then obtain w where w: "pkg_to_var s1 (key x) = Some w" by auto
    then show "pkg_to_var s' (key x) = pkg_to_var s1 (key x)"
      using ext_pkg_to_var [OF ih(2)] by simp
  qed
  then have m: "map (\<lambda>c. pkg_to_var s' (key c)) cands = map Some vs"
    using h(5) by (simp cong: map_cong)
  have cl: "(- pv # vs) \<in> set (cnf s')" using ext_cnf [OF ih(2) h(6)] .
  have em: "\<forall>cand\<in>set cands. \<forall>q. reach g cand q \<longrightarrow> emitted g s' q"
    using h(7) emitted_mono [OF ih(2)] by blast
  have hd: "\<exists>cands vs. satisfying (packages_get g dn) c = Inr cands \<and> cands \<noteq> [] \<and>
              map (\<lambda>c. pkg_to_var s' (key c)) cands = map Some vs \<and> (- pv # vs) \<in> set (cnf s') \<and>
              (\<forall>cand\<in>set cands. \<forall>q. reach g cand q \<longrightarrow> emitted g s' q)"
    using h(3,4) m cl em by blast
  show ?case using ih(1) ext_trans [OF h(2) ih(2)] hd ih(3) unfolding d by simp
qed

declare add_package_constraints.simps(2) [simp del]

lemma depends_on_emitted:
  assumes "depends_on g p c'" 
    and "\<forall>(dn, c)\<in>set (dependencies p).
            \<exists>cands vs. satisfying (packages_get g dn) c = Inr cands \<and> cands \<noteq> [] \<and>
              map (\<lambda>c. pkg_to_var s' (key c)) cands = map Some vs \<and> (- pv # vs) \<in> set (cnf s') \<and>
              (\<forall>cand\<in>set cands. \<forall>q. reach g cand q \<longrightarrow> emitted g s' q)"
    and "reach g c' q"
  shows "emitted g s' q"
proof -
  from assms(1) obtain dn c cs where d: "(dn, c) \<in> set (dependencies p)"
    "satisfying (packages_get g dn) c = Inr cs" "c' \<in> set cs"
    unfolding depends_on_def by blast
  from assms(2) d(1) obtain cands vs where
    h: "satisfying (packages_get g dn) c = Inr cands"
       "\<forall>cand\<in>set cands. \<forall>q. reach g cand q \<longrightarrow> emitted g s' q"
    by blast
  have "cands = cs" using h(1) d(2) by simp
  then show ?thesis using h(2) d(3) assms(3) by blast
qed

lemma add_package_constraints_ok:
  assumes "graph_wf g"
  shows "call_ok g (add_package_constraints depth g)"
proof (induction depth)
  case 0
  show ?case by (simp add: call_ok_def)
next
  case (Suc depth)
  show ?case unfolding call_ok_def
  proof (intro allI impI)
    fix p s s'
    assume run: "add_package_constraints (Suc depth) g p s = Inr s'"
      and i: "inv g s" and mem: "p \<in> set (packages_get g (name p))"
    obtain pv s1 where gv: "get_var p s = (pv, s1)" by (cases "get_var p s")
    let ?s2 = "exclude_others g p pv s1"
    have loop: "for_loop (dependency_step (add_package_constraints depth g) g p pv)
                  (dependencies p) ?s2 = Inr s'"
      using run gv by (simp add: apc_Suc)
    from get_var_props [OF i mem gv]
    have a: "inv g s1" "ext s s1" "pkg_to_var s1 (key p) = Some pv" by simp_all
    from exclude_others_props [OF assms a(1) a(3)]
    have b: "inv g ?s2" "ext s1 ?s2"
      "\<forall>x\<in>set (packages_get g (name p)). \<not> pkg_eq x p \<longrightarrow>
            (\<exists>ov. pkg_to_var ?s2 (key x) = Some ov \<and> [- pv, - ov] \<in> set (cnf ?s2))"
      by blast+
    from dependencies_loop [OF assms Suc loop b(1)]
    have c: "inv g s'" "ext ?s2 s'"
      "\<forall>(dn, c)\<in>set (dependencies p).
            \<exists>cands vs. satisfying (packages_get g dn) c = Inr cands \<and> cands \<noteq> [] \<and>
              map (\<lambda>c. pkg_to_var s' (key c)) cands = map Some vs \<and> (- pv # vs) \<in> set (cnf s') \<and>
              (\<forall>cand\<in>set cands. \<forall>q. reach g cand q \<longrightarrow> emitted g s' q)"
      by blast+
    have e: "ext s s'" using ext_trans [OF a(2) ext_trans [OF b(2) c(2)]] .
    have pv': "pkg_to_var s' (key p) = Some pv"
      using ext_pkg_to_var [OF ext_trans [OF b(2) c(2)] a(3)] .
    have ex': "\<forall>x\<in>set (packages_get g (name p)). \<not> pkg_eq x p \<longrightarrow>
            (\<exists>ov. pkg_to_var s' (key x) = Some ov \<and> [- pv, - ov] \<in> set (cnf s'))"
      using b(3) ext_pkg_to_var [OF c(2)] ext_cnf [OF c(2)] by blast
    have dp': "\<forall>(dn, c)\<in>set (dependencies p).
           \<exists>cands vs. satisfying (packages_get g dn) c = Inr cands \<and>
             cands \<noteq> [] \<and> map (\<lambda>c. pkg_to_var s' (key c)) cands = map Some vs \<and>
             (- pv # vs) \<in> set (cnf s')"
      using c(3) by fast
    have self: "emitted g s' p" unfolding emitted_def using pv' ex' dp' by blast
    have "\<forall>q. reach g p q \<longrightarrow> emitted g s' q"
    proof (intro allI impI)
      fix q assume "reach g p q"
      then show "emitted g s' q"
      proof (cases rule: reach.cases)
        case reach_refl
        then show ?thesis using self by simp
      next
        case (reach_step c')
        then show ?thesis using depends_on_emitted [OF _ c(3)] by blast
      qed
    qed
    then show "inv g s' \<and> ext s s' \<and> (\<forall>q. reach g p q \<longrightarrow> emitted g s' q)"
      using c(1) e by blast
  qed
qed

lemma max_version_mem: "max_version m ps = Inr r \<Longrightarrow> r \<in> set (m # ps)"
  by (induction ps arbitrary: m) (auto split: sum.splits if_splits)

lemma get_package_mem:
  "get_package g nm c = Inr (Some r) \<Longrightarrow> r \<in> set (packages_get g nm)"
proof -
  assume a: "get_package g nm c = Inr (Some r)"
  then obtain pkgs where pk: "g nm = Some pkgs"
    by (cases "g nm") (auto simp add: get_package_def)
  from a pk obtain cands where cs: "satisfying pkgs c = Inr cands"
    by (cases "satisfying pkgs c") (auto simp add: get_package_def)
  from a pk cs obtain m ps where mp: "cands = m # ps" "max_version m ps = Inr r"
    by (cases cands; cases "max_version (hd cands) (tl cands)") (auto simp add: get_package_def)
  have "r \<in> set cands" using max_version_mem [OF mp(2)] mp(1) by simp
  then show ?thesis using satisfying_subset [OF cs] pk by (auto simp add: packages_get_def)
qed

lemma request_step_props:
  assumes "graph_wf g" and "request_step limit g (nm, c) s = Inr s'" and "inv g s"
  shows "inv g s' \<and> ext s s' \<and>
         (\<forall>r. get_package g nm c = Inr (Some r) \<longrightarrow>
            (\<exists>v. pkg_to_var s' (key r) = Some v \<and> [v] \<in> set (cnf s')) \<and>
            (\<forall>q. reach g r q \<longrightarrow> emitted g s' q))"
proof -
  from assms(2) obtain r where r: "get_package g nm c = Inr (Some r)"
    by (cases "get_package g nm c") (auto simp add: request_step_def split: option.splits)
  obtain v s1 where gv: "get_var r s = (v, s1)" by (cases "get_var r s")
  let ?s2 = "add_clause [v] s1"
  have run: "add_package_constraints limit g r ?s2 = Inr s'"
    using assms(2) r gv by (simp add: request_step_def)
  have mem: "r \<in> set (packages_get g (name r))"
    using graph_wf_own [OF assms(1) get_package_mem [OF r]] .
  from get_var_props [OF assms(3) mem gv]
  have a: "inv g s1" "ext s s1" "pkg_to_var s1 (key r) = Some v" by simp_all
  from add_clause_props [OF a(1), of "[v]"]
  have b: "inv g ?s2" "ext s1 ?s2" "[v] \<in> set (cnf ?s2)" "pkg_to_var ?s2 = pkg_to_var s1"
    by simp_all
  from add_package_constraints_ok [OF assms(1), of limit] run b(1) mem
  have c: "inv g s'" "ext ?s2 s'" "\<forall>q. reach g r q \<longrightarrow> emitted g s' q"
    unfolding call_ok_def by blast+
  have "pkg_to_var s' (key r) = Some v"
    using ext_pkg_to_var [OF c(2)] b(4) a(3) by simp
  moreover have "[v] \<in> set (cnf s')" using ext_cnf [OF c(2) b(3)] .
  moreover have "ext s s'" using ext_trans [OF a(2) ext_trans [OF b(2) c(2)]] .
  ultimately show ?thesis using c(1,3) r by auto
qed

lemma add_requested_props:
  assumes "graph_wf g" and "add_requested limit g req s = Inr s'" and "inv g s"
  shows "inv g s' \<and> ext s s' \<and>
         (\<forall>r. requested_root g req r \<longrightarrow>
            (\<exists>v. pkg_to_var s' (key r) = Some v \<and> [v] \<in> set (cnf s')) \<and>
            (\<forall>q. reach g r q \<longrightarrow> emitted g s' q))"
  using assms(2-) unfolding add_requested_step
proof (induction req arbitrary: s)
  case Nil
  then show ?case by (simp add: ext_refl requested_root_def)
next
  case (Cons d req)
  obtain nm c where d: "d = (nm, c)" by (cases d)
  from Cons.prems(1) obtain s1 where s1: "request_step limit g (nm, c) s = Inr s1"
    "for_loop (request_step limit g) req s1 = Inr s'"
    unfolding d by (auto split: sum.splits)
  from request_step_props [OF assms(1) s1(1) Cons.prems(2)]
  have h: "inv g s1" "ext s s1"
    "\<forall>r. get_package g nm c = Inr (Some r) \<longrightarrow>
            (\<exists>v. pkg_to_var s1 (key r) = Some v \<and> [v] \<in> set (cnf s1)) \<and>
            (\<forall>q. reach g r q \<longrightarrow> emitted g s1 q)"
    by blast+
  from Cons.IH [OF s1(2) h(1)]
  have ih: "inv g s'" "ext s1 s'"
    "\<forall>r. requested_root g req r \<longrightarrow>
            (\<exists>v. pkg_to_var s' (key r) = Some v \<and> [v] \<in> set (cnf s')) \<and>
            (\<forall>q. reach g r q \<longrightarrow> emitted g s' q)"
    by blast+
  have hd: "\<forall>r. get_package g nm c = Inr (Some r) \<longrightarrow>
            (\<exists>v. pkg_to_var s' (key r) = Some v \<and> [v] \<in> set (cnf s')) \<and>
            (\<forall>q. reach g r q \<longrightarrow> emitted g s' q)"
    using h(3) ext_pkg_to_var [OF ih(2)] ext_cnf [OF ih(2)] emitted_mono [OF ih(2)] by blast
  have "\<forall>r. requested_root g (d # req) r \<longrightarrow>
            (\<exists>v. pkg_to_var s' (key r) = Some v \<and> [v] \<in> set (cnf s')) \<and>
            (\<forall>q. reach g r q \<longrightarrow> emitted g s' q)"
  proof (intro allI impI)
    fix r assume "requested_root g (d # req) r"
    then have "get_package g nm c = Inr (Some r) \<or> requested_root g req r"
      unfolding requested_root_def d by auto
    then show "(\<exists>v. pkg_to_var s' (key r) = Some v \<and> [v] \<in> set (cnf s')) \<and>
            (\<forall>q. reach g r q \<longrightarrow> emitted g s' q)"
      using hd ih(3) by blast
  qed
  then show ?case using ih(1) ext_trans [OF h(2) ih(2)] by blast
qed

section \<open>Extraction of the solution\<close>

lemma pkg_eq_key: "pkg_eq a b \<longleftrightarrow> key a = key b"
  by (simp add: pkg_eq_def key_def)

lemma set_add_props:
  "distinct (map key xs) \<Longrightarrow>
   distinct (map key (set_add p xs)) \<and> set xs \<subseteq> set (set_add p xs) \<and>
   set (set_add p xs) \<subseteq> insert p (set xs) \<and> (\<exists>q\<in>set (set_add p xs). pkg_eq q p)"
  by (auto simp add: set_add_def pkg_eq_key)

lemma extract_fold:
  assumes "distinct (map key acc)"
  shows "distinct (map key (fold (\<lambda>var solution.
             if var > 0 \<and> var \<in> dom (var_to_pkg s)
             then set_add (the (var_to_pkg s var)) solution else solution) m acc)) \<and>
         set acc \<subseteq> set (fold (\<lambda>var solution.
             if var > 0 \<and> var \<in> dom (var_to_pkg s)
             then set_add (the (var_to_pkg s var)) solution else solution) m acc) \<and>
         (\<forall>p\<in>set (fold (\<lambda>var solution.
             if var > 0 \<and> var \<in> dom (var_to_pkg s)
             then set_add (the (var_to_pkg s var)) solution else solution) m acc).
            p \<in> set acc \<or> (\<exists>v\<in>set m. 0 < v \<and> var_to_pkg s v = Some p)) \<and>
         (\<forall>v\<in>set m. \<forall>p. 0 < v \<and> var_to_pkg s v = Some p \<longrightarrow>
            (\<exists>q\<in>set (fold (\<lambda>var solution.
             if var > 0 \<and> var \<in> dom (var_to_pkg s)
             then set_add (the (var_to_pkg s var)) solution else solution) m acc). pkg_eq q p))"
  (is "distinct (map key (fold ?f m acc)) \<and> _ \<and> _ \<and> _")
  using assms
proof (induction m arbitrary: acc)
  case Nil
  then show ?case by simp
next
  case (Cons v m)
  let ?a = "?f v acc"
  have st: "distinct (map key ?a) \<and> set acc \<subseteq> set ?a \<and>
      (\<forall>p\<in>set ?a. p \<in> set acc \<or> (0 < v \<and> var_to_pkg s v = Some p)) \<and>
      (\<forall>p. 0 < v \<and> var_to_pkg s v = Some p \<longrightarrow> (\<exists>q\<in>set ?a. pkg_eq q p))"
  proof (cases "v > 0 \<and> v \<in> dom (var_to_pkg s)")
    case True
    then obtain p where p: "var_to_pkg s v = Some p" by auto
    have a: "?a = set_add p acc" using True p by simp
    show ?thesis unfolding a using set_add_props [OF Cons.prems, of p] True p by auto
  next
    case False
    then show ?thesis using Cons.prems by auto
  qed
  then have d: "distinct (map key ?a)" by blast
  from Cons.IH [OF d]
  have ih: "distinct (map key (fold ?f m ?a))" "set ?a \<subseteq> set (fold ?f m ?a)"
    "\<forall>p\<in>set (fold ?f m ?a). p \<in> set ?a \<or> (\<exists>v\<in>set m. 0 < v \<and> var_to_pkg s v = Some p)"
    "\<forall>v\<in>set m. \<forall>p. 0 < v \<and> var_to_pkg s v = Some p \<longrightarrow> (\<exists>q\<in>set (fold ?f m ?a). pkg_eq q p)"
    by blast+
  have f: "fold ?f (v # m) acc = fold ?f m ?a" by simp
  have c1: "set acc \<subseteq> set (fold ?f m ?a)" using st ih(2) by blast
  have c2: "\<forall>p\<in>set (fold ?f m ?a). p \<in> set acc \<or> (\<exists>w\<in>set (v # m). 0 < w \<and> var_to_pkg s w = Some p)"
    using st ih(3) by fastforce
  have c3: "\<forall>w\<in>set (v # m). \<forall>p. 0 < w \<and> var_to_pkg s w = Some p \<longrightarrow>
      (\<exists>q\<in>set (fold ?f m ?a). pkg_eq q p)"
  proof (intro ballI allI impI)
    fix w p assume w: "w \<in> set (v # m)" and p: "0 < w \<and> var_to_pkg s w = Some p"
    show "\<exists>q\<in>set (fold ?f m ?a). pkg_eq q p"
    proof (cases "w \<in> set m")
      case True
      then show ?thesis using ih(4) p by blast
    next
      case False
      then have "w = v" using w by simp
      then obtain q where "q \<in> set ?a" "pkg_eq q p" using st p by blast
      then show ?thesis using ih(2) by blast
    qed
  qed
  show ?case unfolding f using ih(1) c1 c2 c3 by blast
qed

lemma extract_solution_props:
  "distinct (map key (extract_solution s m)) \<and>
   (\<forall>p\<in>set (extract_solution s m). \<exists>v\<in>set m. 0 < v \<and> var_to_pkg s v = Some p) \<and>
   (\<forall>v\<in>set m. \<forall>p. 0 < v \<and> var_to_pkg s v = Some p \<longrightarrow>
      (\<exists>q\<in>set (extract_solution s m). pkg_eq q p))"
  using extract_fold [of "[]" s m] unfolding extract_solution_def by simp

lemma prune_solution_same: "prune_solution solution = Inr pruned \<Longrightarrow> pruned = solution"
  by (auto simp add: prune_solution_def Let_def split: sum.splits)

lemma solve_success:
  assumes "solve sat limit g req = Inr sol"
  shows "\<exists>s m. add_requested limit g req init_Solver = Inr s \<and> sat (cnf s) = Some m \<and>
               prune_solution (extract_solution s m) = Inr sol \<and> sol = extract_solution s m"
proof -
  from assms have t: "solve_try sat limit g req = Inr sol"
    by (auto simp add: solve_def split: sum.splits)
  then obtain s where s: "add_requested limit g req init_Solver = Inr s"
    by (auto simp add: solve_try_def split: sum.splits)
  from t s obtain m where m: "sat (cnf s) = Some m"
    by (auto simp add: solve_try_def split: option.splits)
  from t s m have p: "prune_solution (extract_solution s m) = Inr sol"
    by (simp add: solve_try_def)
  show ?thesis using s m p prune_solution_same [OF p] by blast
qed

text \<open>The facts about a successful run that the properties of the solution rest on.\<close>

lemma solve_facts:
  assumes "graph_wf g" and "sound_oracle sat" and "solve sat limit g req = Inr sol"
  obtains s m where "inv g s" and "satisfies_clauses m (cnf s)"
    and "sol = extract_solution s m"
    and "\<forall>r. requested_root g req r \<longrightarrow>
            (\<exists>v. pkg_to_var s (key r) = Some v \<and> [v] \<in> set (cnf s)) \<and>
            (\<forall>q. reach g r q \<longrightarrow> emitted g s q)"
proof -
  from solve_success [OF assms(3)] obtain s m where
    h: "add_requested limit g req init_Solver = Inr s" "sat (cnf s) = Some m"
       "sol = extract_solution s m" by blast
  from add_requested_props [OF assms(1) h(1) inv_init]
  have a: "inv g s" "\<forall>r. requested_root g req r \<longrightarrow>
            (\<exists>v. pkg_to_var s (key r) = Some v \<and> [v] \<in> set (cnf s)) \<and>
            (\<forall>q. reach g r q \<longrightarrow> emitted g s q)" by blast+
  have "satisfies_clauses m (cnf s)" using assms(2) h(2) unfolding sound_oracle_def by blast
  then show ?thesis using that a h(3) by blast
qed

lemma selected_var:
  assumes "inv g s" and "p \<in> set (extract_solution s m)"
  shows "\<exists>v. v \<in> set m \<and> 0 < v \<and> var_to_pkg s v = Some p \<and> pkg_to_var s (key p) = Some v"
proof -
  from extract_solution_props [of s m] assms(2)
  obtain v where "v \<in> set m" "0 < v" "var_to_pkg s v = Some p" by blast
  then show ?thesis using assms(1) unfolding inv_def by blast
qed


end
